theory Spec2Isabelle
  imports Main "HOL-Library.Word"
begin

section \<open>Data model of \<^verbatim>\<open>include/mxnet/io.h\<close>\<close>

text \<open>
  The header declares the roles of the data-loading pipeline: the iterator base class
  \<^verbatim>\<open>IIterator\<close>, the value types \<^verbatim>\<open>DataInst\<close> and \<^verbatim>\<open>DataBatch\<close>, the random-access
  \<^verbatim>\<open>Dataset\<close> and the collation role \<^verbatim>\<open>BatchifyFunction\<close>. The tensor types
  (\<^verbatim>\<open>NDArray\<close>, \<^verbatim>\<open>TBlob\<close>) come from \<^verbatim>\<open>ndarray.h\<close>, which the header only includes; they
  are a type parameter \<open>'nd\<close> of every definition below.

  A failed \<^verbatim>\<open>CHECK_*\<close> raises a fatal error. Errors are values of the type \<open>error\<close>, named
  after the error taxonomy of the specification; a fallible operation returns
  \<open>error + 'a\<close> with \<open>Inl\<close> for the error.
\<close>

datatype error =
    EmptyBatch
  | ArityMismatch
  | IndexOutOfRange
  | FieldOutOfRange
  | InvalidState
  | UpstreamIOError

text \<open>\<^verbatim>\<open>struct DataBatch\<close>: a plain aggregate with public fields and no constructor.\<close>

record 'nd DataBatch =
  data :: "'nd list"
  index :: "64 word list"
  extra_data :: string
  num_batch_padd :: "32 word"

subsection \<open>\<^verbatim>\<open>IIterator\<close>: the non-virtual part of the base class\<close>

text \<open>
  The only data member of \<^verbatim>\<open>IIterator\<close> is \<^verbatim>\<open>data_names\<close>; a subclass adds its own
  members, which the record extension \<open>'a IIterator_scheme\<close> stands for.
\<close>

record IIterator =
  data_names :: "string list"

text \<open>\<^verbatim>\<open>SetDataName\<close>: \<^verbatim>\<open>data_names.push_back(data_name)\<close>.\<close>

definition SetDataName :: "string \<Rightarrow> 'a IIterator_scheme \<Rightarrow> 'a IIterator_scheme" where
  "SetDataName data_name it = it\<lparr>data_names := data_names it @ [data_name]\<rparr>"

text \<open>The body of \<^verbatim>\<open>GetLenHint\<close> in the base class: \<^verbatim>\<open>return -1\<close>, as an \<^verbatim>\<open>int64_t\<close>.\<close>

definition GetLenHint :: "'a IIterator_scheme \<Rightarrow> 64 word" where
  "GetLenHint it = - 1"

text \<open>
  \<^verbatim>\<open>GetLenHint\<close> is virtual: a call goes to the override of the subclass when there is
  one, and to the body of the base class otherwise.
\<close>

definition GetLenHint_virtual ::
  "('a IIterator_scheme \<Rightarrow> 64 word) option \<Rightarrow> 'a IIterator_scheme \<Rightarrow> 64 word" where
  "GetLenHint_virtual override it =
     (case override of None \<Rightarrow> GetLenHint it | Some f \<Rightarrow> f it)"

text \<open>
  The reading of a hint, from the comment on \<^verbatim>\<open>GetLenHint\<close>: a returned value below
  zero says that the length of the iterator is unknown.
\<close>

definition length_unknown :: "64 word \<Rightarrow> bool" where
  "length_unknown hint = (hint <s 0)"

subsection \<open>\<^verbatim>\<open>BatchifyFunction::SanityCheck\<close>\<close>

text \<open>
  The loop \<^verbatim>\<open>for (size_t i = 1; i < bs; ++i) CHECK_EQ(inputs[i].size(), out_size)\<close>,
  from the index \<open>i\<close> on. It returns \<open>out_size\<close> when every check passes.
\<close>

function SanityCheck_loop :: "'nd list list \<Rightarrow> nat \<Rightarrow> nat \<Rightarrow> nat \<Rightarrow> error + nat" where
  "SanityCheck_loop inputs bs out_size i =
     (if i < bs then
        (if length (inputs ! i) = out_size
         then SanityCheck_loop inputs bs out_size (i + 1)
         else Inl ArityMismatch)
      else Inr out_size)"
  by pat_completeness auto
termination
  by (relation "measure (\<lambda>(inputs, bs, out_size, i). bs - i)") auto

declare SanityCheck_loop.simps [simp del]

text \<open>
  \<^verbatim>\<open>SanityCheck\<close>: \<^verbatim>\<open>CHECK_GT(bs, 0)\<close> fails on the empty batch before \<^verbatim>\<open>inputs[0]\<close> is
  read; then the loop compares the size of every later sample with the size of the
  first.
\<close>

definition SanityCheck :: "'nd list list \<Rightarrow> error + nat" where
  "SanityCheck inputs =
     (let bs = length inputs in
      if bs > 0 then
        (let out_size = length (inputs ! 0) in SanityCheck_loop inputs bs out_size 1)
      else Inl EmptyBatch)"

text \<open>
  Modelled from the spec: \<^verbatim>\<open>Batchify\<close> is pure virtual in the header and no concrete
  batchifier is part of it. The specification fixes that validation is mandatory before
  any stacking logic runs; the stacking logic of the concrete batchifier is the
  parameter \<open>stack\<close>, which receives the validated field count and the samples.
\<close>

definition Batchify ::
  "(nat \<Rightarrow> 'nd list list \<Rightarrow> error + 'nd list) \<Rightarrow> 'nd list list \<Rightarrow> error + 'nd list" where
  "Batchify stack inputs =
     (case SanityCheck inputs of
        Inl e \<Rightarrow> Inl e
      | Inr out_size \<Rightarrow> stack out_size inputs)"

subsection \<open>\<^verbatim>\<open>Dataset\<close>\<close>





subsection \<open>A streaming iterator\<close>

text \<open>
  Modelled from the spec: \<^verbatim>\<open>Init\<close>, \<^verbatim>\<open>BeforeFirst\<close>, \<^verbatim>\<open>Next\<close> and \<^verbatim>\<open>Value\<close> are pure virtual
  in the header, and no concrete iterator is part of it. Following section 4.3 of the
  specification, an iterator is a cursor over the data of one epoch, with the states
  \<open>Uninitialized\<close>, \<open>Ready\<close> and \<open>Exhausted\<close>. An entry of the upstream data is a batch,
  or malformed data, which surfaces as a fatal error from \<^verbatim>\<open>Next\<close>.
\<close>

datatype 'b item = Good 'b | Bad error

datatype phase = Uninitialized | Ready | Exhausted

record 'b StreamingIterator =
  upstream :: "'b item list"
  cursor :: nat
  phase :: phase
  current :: "'b option"

text \<open>
  Modelled from the spec: \<open>init\<close> takes the iterator from \<open>Uninitialized\<close> to \<open>Ready\<close>.
  Parsing the configuration is the concrete iterator's work and is left out.
\<close>

definition Init :: "'b StreamingIterator \<Rightarrow> 'b StreamingIterator" where
  "Init it = it\<lparr>cursor := 0, phase := Ready, current := None\<rparr>"

text \<open>
  Modelled from the spec: \<open>before_first\<close> is valid only after \<open>init\<close>; it puts the cursor
  back to the beginning of the epoch.
\<close>

definition BeforeFirst :: "'b StreamingIterator \<Rightarrow> error + 'b StreamingIterator" where
  "BeforeFirst it =
     (if phase it = Uninitialized then Inl InvalidState
      else Inr (it\<lparr>cursor := 0, phase := Ready, current := None\<rparr>))"

text \<open>
  Modelled from the spec: \<open>next\<close> advances the cursor; it returns true and makes a new
  value available, or returns false and goes to \<open>Exhausted\<close> when no more data remains.
  The result comes with the iterator after the call.
\<close>

definition Next :: "'b StreamingIterator \<Rightarrow> (error + bool) \<times> 'b StreamingIterator" where
  "Next it =
     (if phase it = Uninitialized then (Inl InvalidState, it)
      else if cursor it < length (upstream it) then
        (case upstream it ! cursor it of
           Good b \<Rightarrow> (Inr True, it\<lparr>cursor := cursor it + 1, current := Some b\<rparr>)
         | Bad e \<Rightarrow> (Inl e, it))
      else (Inr False, it\<lparr>phase := Exhausted, current := None\<rparr>))"

text \<open>
  Modelled from the spec: \<open>value\<close> returns the batch of the most recent successful
  \<open>next\<close>, and fails with \<open>InvalidState\<close> before any \<open>next\<close> and after exhaustion.
\<close>

definition Value :: "'b StreamingIterator \<Rightarrow> error + 'b" where
  "Value it =
     (case current it of
        Some b \<Rightarrow> if phase it = Ready then Inr b else Inl InvalidState
      | None \<Rightarrow> Inl InvalidState)"

text \<open>\<open>k\<close> calls of \<^verbatim>\<open>Next\<close> in a row: their results, and the iterator after the last.\<close>

fun Next_times :: "nat \<Rightarrow> 'b StreamingIterator \<Rightarrow> (error + bool) list \<times> 'b StreamingIterator" where
  "Next_times 0 it = ([], it)"
| "Next_times (Suc k) it =
     (case Next it of (r, it') \<Rightarrow> (case Next_times k it' of (rs, it'') \<Rightarrow> (r # rs, it'')))"

subsection \<open>The prefetching wrapper\<close>

text \<open>
  Modelled from the spec: the prefetching wrapper (\<^verbatim>\<open>PrefetcherIter\<close> in the comment on
  \<^verbatim>\<open>MXNET_REGISTER_IO_ITER\<close>) is not part of the header. Section 4.5 of the specification
  describes it: a bounded queue of produced batches, a background loop that fills it and
  ends an epoch with a sentinel, and a consumer that pulls from it. An entry of the
  queue is a batch or the end-of-epoch sentinel.
\<close>

datatype 'b slot = Item 'b | EndOfEpoch

text \<open>
  Modelled from the spec: the wrapper owns the inner iterator and the queue, whose
  capacity is the configured lookahead depth. \<open>pending\<close> is the entry the background loop
  has produced and not yet pushed (it waits there while the queue is full), \<open>running\<close>
  says that the background loop has not stopped, and \<open>captured\<close> holds the error of the
  inner iterator until the consumer has seen it. \<open>wphase\<close> and \<open>wcurrent\<close> are the
  wrapper's own state and current batch.
\<close>

record 'b PrefetchingIterator =
  inner :: "'b StreamingIterator"
  lookahead :: nat
  queue :: "'b slot list"
  pending :: "'b slot option"
  running :: bool
  captured :: "error option"
  wphase :: phase
  wcurrent :: "'b option"

text \<open>
  Modelled from the spec: \<open>init\<close> initializes the inner iterator and starts the background
  loop on an empty queue.
\<close>

definition Prefetch_Init :: "nat \<Rightarrow> 'b StreamingIterator \<Rightarrow> 'b PrefetchingIterator" where
  "Prefetch_Init depth it =
     \<lparr>inner = Init it, lookahead = depth, queue = [], pending = None, running = True,
      captured = None, wphase = Ready, wcurrent = None\<rparr>"

text \<open>
  Modelled from the spec: one action of the background loop, \<open>None\<close> when the loop has
  stopped or is blocked. The loop calls the inner \<^verbatim>\<open>Next\<close>; on true it takes \<^verbatim>\<open>Value\<close> and
  pushes it, waiting while the queue is full; on false it pushes the sentinel and stops.
  An error of the inner iterator is captured, and the loop stops.
\<close>

definition background :: "'b PrefetchingIterator \<Rightarrow> 'b PrefetchingIterator option" where
  "background p =
     (if \<not> running p then None
      else case pending p of
        Some s \<Rightarrow>
          (if length (queue p) < lookahead p
           then Some (p\<lparr>queue := queue p @ [s], pending := None, running := (s \<noteq> EndOfEpoch)\<rparr>)
           else None)
      | None \<Rightarrow>
          (case Next (inner p) of
             (Inl e, it') \<Rightarrow> Some (p\<lparr>inner := it', running := False, captured := Some e\<rparr>)
           | (Inr False, it') \<Rightarrow> Some (p\<lparr>inner := it', pending := Some EndOfEpoch\<rparr>)
           | (Inr True, it') \<Rightarrow>
               (case Value it' of
                  Inl e \<Rightarrow> Some (p\<lparr>inner := it', running := False, captured := Some e\<rparr>)
                | Inr b \<Rightarrow> Some (p\<lparr>inner := it', pending := Some (Item b)\<rparr>))))"

text \<open>
  Modelled from the spec: the consumer's \<open>next\<close>, \<open>None\<close> while it is blocked on the empty
  queue. A captured error is raised to the consumer, and the wrapper is \<open>Exhausted\<close>
  afterwards; after exhaustion \<open>next\<close> keeps returning false, as the contract of a
  streaming iterator requires.
\<close>

definition Prefetch_Next ::
  "'b PrefetchingIterator \<Rightarrow> ((error + bool) \<times> 'b PrefetchingIterator) option" where
  "Prefetch_Next p =
     (if wphase p = Exhausted then Some (Inr False, p)
      else case captured p of
        Some e \<Rightarrow> Some (Inl e, p\<lparr>captured := None, wphase := Exhausted, wcurrent := None\<rparr>)
      | None \<Rightarrow>
          (case queue p of
             [] \<Rightarrow> None
           | Item b # q \<Rightarrow> Some (Inr True, p\<lparr>queue := q, wcurrent := Some b\<rparr>)
           | EndOfEpoch # q \<Rightarrow>
               Some (Inr False, p\<lparr>queue := q, wphase := Exhausted, wcurrent := None\<rparr>)))"

text \<open>
  Modelled from the spec: the consumer's \<open>value\<close>: the batch of the most recent
  successful \<open>next\<close>, \<open>InvalidState\<close> before any \<open>next\<close> and after exhaustion; a captured
  error is raised here as well.
\<close>

definition Prefetch_Value ::
  "'b PrefetchingIterator \<Rightarrow> (error + 'b) \<times> 'b PrefetchingIterator" where
  "Prefetch_Value p =
     (if wphase p = Exhausted then (Inl InvalidState, p)
      else case captured p of
        Some e \<Rightarrow> (Inl e, p\<lparr>captured := None, wphase := Exhausted, wcurrent := None\<rparr>)
      | None \<Rightarrow>
          (case wcurrent p of
             Some b \<Rightarrow> (Inr b, p)
           | None \<Rightarrow> (Inl InvalidState, p)))"

text \<open>
  A run of the wrapper is a sequence of events, in any interleaving: an action of the
  background loop, a call of \<open>next\<close>, a call of \<open>value\<close>, or one turn of the consumer's
  loop \<^verbatim>\<open>while (it.Next()) use(it.Value())\<close>, which is \<open>Pull\<close>. An event that is blocked
  leaves the wrapper as it is and returns nothing. The log holds what the calls of the
  consumer returned, in order.
\<close>

datatype event = Background | CallNext | CallValue | Pull

datatype 'b answer = NextResult "error + bool" | ValueResult "error + 'b"

fun exec :: "event \<Rightarrow> 'b PrefetchingIterator \<Rightarrow> 'b answer list \<times> 'b PrefetchingIterator" where
  "exec Background p = ([], case background p of None \<Rightarrow> p | Some p' \<Rightarrow> p')"
| "exec CallNext p =
     (case Prefetch_Next p of
        None \<Rightarrow> ([], p)
      | Some (r, p') \<Rightarrow> ([NextResult r], p'))"
| "exec CallValue p = (case Prefetch_Value p of (r, p') \<Rightarrow> ([ValueResult r], p'))"
| "exec Pull p =
     (case Prefetch_Next p of
        None \<Rightarrow> ([], p)
      | Some (r, p') \<Rightarrow>
          (if r = Inr True
           then (case Prefetch_Value p' of (v, p'') \<Rightarrow> ([NextResult r, ValueResult v], p''))
           else ([NextResult r], p')))"

fun run ::
  "event list \<Rightarrow> 'b answer list \<times> 'b PrefetchingIterator
     \<Rightarrow> 'b answer list \<times> 'b PrefetchingIterator" where
  "run [] s = s"
| "run (ev # evs) (log, p) = (case exec ev p of (out, p') \<Rightarrow> run evs (log @ out, p'))"

text \<open>The batches that \<open>value\<close> returned, in order.\<close>

fun values_of :: "'b answer list \<Rightarrow> 'b list" where
  "values_of [] = []"
| "values_of (ValueResult (Inr b) # as) = b # values_of as"
| "values_of (a # as) = values_of as"

text \<open>An inner iterator, not yet initialized, whose epoch consists of the batches \<open>bs\<close>.\<close>

definition fresh :: "'b list \<Rightarrow> 'b StreamingIterator" where
  "fresh bs = \<lparr>upstream = map Good bs, cursor = 0, phase = Uninitialized, current = None\<rparr>"

text \<open>\<open>k\<close> turns of the consumer's loop on a streaming iterator itself, with their log.\<close>

fun direct :: "nat \<Rightarrow> 'b StreamingIterator \<Rightarrow> 'b answer list" where
  "direct 0 it = []"
| "direct (Suc k) it =
     (case Next it of (r, it') \<Rightarrow>
        (if r = Inr True
         then NextResult r # ValueResult (Value it') # direct k it'
         else NextResult r # direct k it'))"

text \<open>
  An inner iterator whose second entry is malformed, and the wrapper of depth 2 around it
  after the background loop has produced and pushed the first batch, for concrete
  evaluation.
\<close>

definition failing_upstream :: "nat StreamingIterator" where
  "failing_upstream =
     \<lparr>upstream = [Good 1, Bad UpstreamIOError, Good 3], cursor = 0,
      phase = Uninitialized, current = None\<rparr>"

definition before_failure :: "nat PrefetchingIterator" where
  "before_failure =
     \<lparr>inner = \<lparr>upstream = [Good 1, Bad UpstreamIOError, Good 3], cursor = 1,
                phase = Ready, current = Some 1\<rparr>,
      lookahead = 2, queue = [Item 1], pending = None, running = True,
      captured = None, wphase = Ready, wcurrent = None\<rparr>"

subsection \<open>Invariants of the prefetching wrapper\<close>

text \<open>
  While the background loop runs, the consumer has not seen the end, no error is
  captured and the sentinel is not in the queue.
\<close>

definition loop_alive_ok :: "'b PrefetchingIterator \<Rightarrow> bool" where
  "loop_alive_ok p =
     (running p \<longrightarrow> wphase p \<noteq> Exhausted \<and> captured p = None \<and> EndOfEpoch \<notin> set (queue p))"

text \<open>
  What the consumer will still get when the inner iterator yields the batches \<open>bs\<close>:
  the queue, then the pending entry, then what the inner iterator has not produced yet.
\<close>

definition pending_list :: "'b PrefetchingIterator \<Rightarrow> 'b slot list" where
  "pending_list p = (case pending p of None \<Rightarrow> [] | Some s \<Rightarrow> [s])"

definition future :: "'b list \<Rightarrow> 'b PrefetchingIterator \<Rightarrow> 'b slot list" where
  "future bs p =
     (if phase (inner p) = Exhausted then []
      else map Item (drop (cursor (inner p)) bs) @ [EndOfEpoch])"

text \<open>The background loop runs exactly until it has pushed the sentinel.\<close>

definition loop_state_ok :: "'b PrefetchingIterator \<Rightarrow> bool" where
  "loop_state_ok p =
     (case pending p of
        None \<Rightarrow> running p = (phase (inner p) \<noteq> Exhausted)
      | Some (Item b) \<Rightarrow> running p \<and> phase (inner p) \<noteq> Exhausted
      | Some EndOfEpoch \<Rightarrow> running p \<and> phase (inner p) = Exhausted)"

text \<open>
  The invariant of a run over the batches \<open>bs\<close>: what the consumer has got, followed by
  what it will still get, is \<open>bs\<close> followed by the sentinel.
\<close>

definition in_order :: "'b list \<Rightarrow> 'b answer list \<times> 'b PrefetchingIterator \<Rightarrow> bool" where
  "in_order bs s =
     (case s of (log, p) \<Rightarrow>
        upstream (inner p) = map Good bs
        \<and> phase (inner p) \<noteq> Uninitialized
        \<and> captured p = None
        \<and> loop_state_ok p
        \<and> ((NextResult (Inr False) \<in> set log) = (wphase p = Exhausted))
        \<and> map Item (values_of log) @ (if wphase p = Exhausted then [EndOfEpoch] else [])
            @ queue p @ pending_list p @ future bs p
          = map Item bs @ [EndOfEpoch])"

text \<open>The number of actions that remain until the consumer sees the end.\<close>

definition work_left :: "'b list \<Rightarrow> 'b PrefetchingIterator \<Rightarrow> nat" where
  "work_left bs p =
     3 * length (future bs p) + 2 * length (pending_list p) + length (queue p)
       + (if wphase p = Exhausted then 0 else 1)"



section \<open>The base class of iterators\<close>

text \<open>
  C9. \<^verbatim>\<open>SetDataName s\<close> makes \<open>s\<close> the new last element of \<^verbatim>\<open>data_names\<close>, makes the
  vector exactly one element longer, and leaves the names stored before, and their
  order, as they were.
\<close>

theorem SetDataName_appends:
  "last (data_names (SetDataName s it)) = s
   \<and> length (data_names (SetDataName s it)) = Suc (length (data_names it))
   \<and> take (length (data_names it)) (data_names (SetDataName s it)) = data_names it
   \<and> butlast (data_names (SetDataName s it)) = data_names it
   \<and> IIterator.more (SetDataName s it) = IIterator.more it"
  by (simp add: SetDataName_def)

text \<open>
  C8. The length hint is a signed 64-bit integer, and a hint is read as "unknown"
  exactly when it is negative. An iterator that does not override \<^verbatim>\<open>GetLenHint\<close> returns
  \<open>-1\<close>, which is such a value.
\<close>

theorem GetLenHint_default_unknown:
  "GetLenHint_virtual None it = - 1
   \<and> sint (GetLenHint_virtual None it) = - 1
   \<and> length_unknown (GetLenHint_virtual None it)
   \<and> (length_unknown hint \<longleftrightarrow> sint hint < 0)"
  by (simp add: GetLenHint_virtual_def GetLenHint_def length_unknown_def word_sless_alt)

section \<open>Validation of a batch of samples\<close>

text \<open>
  The loop passes exactly when every sample from the index \<open>i\<close> on has \<open>n\<close> fields.
\<close>

lemma SanityCheck_loop_char:
  "SanityCheck_loop inputs bs n i =
     (if \<forall>j. i \<le> j \<and> j < bs \<longrightarrow> length (inputs ! j) = n then Inr n else Inl ArityMismatch)"
proof (induction inputs bs n i rule: SanityCheck_loop.induct)
  case (1 inputs bs out_size i)
  show ?case
  proof (cases "i < bs")
    case False
    then show ?thesis
      by (simp add: SanityCheck_loop.simps [of inputs bs out_size i])
  next
    case True
    show ?thesis
    proof (cases "length (inputs ! i) = out_size")
      case False
      with True show ?thesis
        by (auto simp add: SanityCheck_loop.simps [of inputs bs out_size i])
    next
      case same: True
      have "(\<forall>j. i \<le> j \<and> j < bs \<longrightarrow> length (inputs ! j) = out_size)
            \<longleftrightarrow> (\<forall>j. i + 1 \<le> j \<and> j < bs \<longrightarrow> length (inputs ! j) = out_size)"
      proof (intro iffI allI impI)
        fix j
        assume "\<forall>j. i \<le> j \<and> j < bs \<longrightarrow> length (inputs ! j) = out_size" and "i + 1 \<le> j \<and> j < bs"
        then show "length (inputs ! j) = out_size" by simp
      next
        fix j
        assume h: "\<forall>j. i + 1 \<le> j \<and> j < bs \<longrightarrow> length (inputs ! j) = out_size" and j: "i \<le> j \<and> j < bs"
        show "length (inputs ! j) = out_size"
        proof (cases "j = i")
          case True
          with same show ?thesis by simp
        next
          case False
          with j have "i + 1 \<le> j \<and> j < bs" by simp
          with h show ?thesis by blast
        qed
      qed
      with True same "1.IH" show ?thesis
        by (simp add: SanityCheck_loop.simps [of inputs bs out_size i])
    qed
  qed
qed

lemma SanityCheck_char:
  "SanityCheck inputs =
     (if inputs = [] then Inl EmptyBatch
      else if \<forall>j < length inputs. length (inputs ! j) = length (inputs ! 0)
           then Inr (length (inputs ! 0)) else Inl ArityMismatch)"
proof (cases "inputs = []")
  case True
  then show ?thesis by (simp add: SanityCheck_def)
next
  case False
  have rng: "(\<forall>j. 1 \<le> j \<and> j < length inputs \<longrightarrow> length (inputs ! j) = length (inputs ! 0))
        \<longleftrightarrow> (\<forall>j < length inputs. length (inputs ! j) = length (inputs ! 0))"
  proof (intro iffI allI impI)
    fix j
    assume "\<forall>j. 1 \<le> j \<and> j < length inputs \<longrightarrow> length (inputs ! j) = length (inputs ! 0)"
      and "j < length inputs"
    then show "length (inputs ! j) = length (inputs ! 0)"
      by (cases "j = 0") simp_all
  next
    fix j
    assume "\<forall>j<length inputs. length (inputs ! j) = length (inputs ! 0)"
      and "1 \<le> j \<and> j < length inputs"
    then show "length (inputs ! j) = length (inputs ! 0)" by simp
  qed
  have "SanityCheck inputs = SanityCheck_loop inputs (length inputs) (length (inputs ! 0)) 1"
    using False by (simp add: SanityCheck_def)
  also have "\<dots> = (if \<forall>j. 1 \<le> j \<and> j < length inputs \<longrightarrow> length (inputs ! j) = length (inputs ! 0)
                    then Inr (length (inputs ! 0)) else Inl ArityMismatch)"
    by (rule SanityCheck_loop_char)
  also have "\<dots> = (if \<forall>j < length inputs. length (inputs ! j) = length (inputs ! 0)
                    then Inr (length (inputs ! 0)) else Inl ArityMismatch)"
    by (simp only: rng)
  finally show ?thesis
    using False by simp
qed

lemma SanityCheck_sizes_only:
  assumes "map length inputs = map length inputs'"
  shows "SanityCheck inputs = SanityCheck inputs'"
proof -
  have len: "length inputs = length inputs'"
    using arg_cong [OF assms, of length] by simp
  have nth: "length (inputs ! j) = length (inputs' ! j)" if "j < length inputs" for j
  proof -
    from that len have "map length inputs ! j = length (inputs ! j)"
      and "map length inputs' ! j = length (inputs' ! j)"
      by simp_all
    with assms show ?thesis by simp
  qed
  show ?thesis
  proof (cases "inputs = []")
    case True
    with len have "inputs' = []" by simp
    with True show ?thesis by (simp add: SanityCheck_def)
  next
    case False
    with len have ne: "inputs' \<noteq> []" by auto
    from False have "0 < length inputs" by simp
    then have first: "length (inputs ! 0) = length (inputs' ! 0)" by (rule nth)
    have "(\<forall>j < length inputs. length (inputs ! j) = length (inputs ! 0))
          \<longleftrightarrow> (\<forall>j < length inputs'. length (inputs' ! j) = length (inputs' ! 0))"
    proof (intro iffI allI impI)
      fix j
      assume h: "\<forall>j < length inputs. length (inputs ! j) = length (inputs ! 0)"
        and "j < length inputs'"
      with len have j: "j < length inputs" by simp
      with h have "length (inputs ! j) = length (inputs ! 0)" by blast
      with nth [OF j] first show "length (inputs' ! j) = length (inputs' ! 0)" by simp
    next
      fix j
      assume h: "\<forall>j < length inputs'. length (inputs' ! j) = length (inputs' ! 0)"
        and j: "j < length inputs"
      with len have "j < length inputs'" by simp
      with h have "length (inputs' ! j) = length (inputs' ! 0)" by blast
      with nth [OF j] first show "length (inputs ! j) = length (inputs ! 0)" by simp
    qed
    then have "(if \<forall>j < length inputs. length (inputs ! j) = length (inputs ! 0)
                then Inr (length (inputs ! 0)) else Inl ArityMismatch)
             = (if \<forall>j < length inputs'. length (inputs' ! j) = length (inputs' ! 0)
                then Inr (length (inputs' ! 0)) else Inl ArityMismatch)"
      by (simp only: first)
    with False ne show ?thesis
      by (simp only: SanityCheck_char [of inputs] SanityCheck_char [of inputs'] if_False)
  qed
qed

lemma SanityCheck_mismatch:
  assumes "i < length inputs" and "length (inputs ! i) \<noteq> length (inputs ! 0)"
  shows "SanityCheck inputs = Inl ArityMismatch"
proof -
  from assms have "\<not> (\<forall>j < length inputs. length (inputs ! j) = length (inputs ! 0))"
    by blast
  moreover from assms have "inputs \<noteq> []" by auto
  ultimately show ?thesis
    by (simp only: SanityCheck_char if_False)
qed

lemma SanityCheck_Inr_nonempty:
  assumes "SanityCheck inputs = Inr n"
  shows "inputs \<noteq> []"
proof
  assume "inputs = []"
  then have "SanityCheck inputs = Inl EmptyBatch"
    by (simp add: SanityCheck_def)
  with assms show False by simp
qed

text \<open>
  C1. On a batch of at least one sample in which some sample's field count differs from
  the field count of the first sample, the validation fails with \<open>ArityMismatch\<close>, and so
  does \<open>Batchify\<close> whatever its stacking logic is: the stacking logic is not reached.
  The validation compares field counts only: two batches whose samples have the same
  field counts get the same verdict, whatever the tensors are.
\<close>

theorem SanityCheck_arity_mismatch:
  "(inputs \<noteq> [] \<and> (\<exists>i < length inputs. length (inputs ! i) \<noteq> length (inputs ! 0))
      \<longrightarrow> SanityCheck inputs = Inl ArityMismatch
          \<and> Batchify stack inputs = Inl ArityMismatch)
   \<and> (map length inputs = map length inputs' \<longrightarrow> SanityCheck inputs = SanityCheck inputs')"
proof (intro conjI impI)
  assume "inputs \<noteq> [] \<and> (\<exists>i < length inputs. length (inputs ! i) \<noteq> length (inputs ! 0))"
  then obtain i where "i < length inputs" and "length (inputs ! i) \<noteq> length (inputs ! 0)"
    by blast
  then show sc: "SanityCheck inputs = Inl ArityMismatch"
    by (rule SanityCheck_mismatch)
  then show "Batchify stack inputs = Inl ArityMismatch"
    by (simp add: Batchify_def)
next
  assume "map length inputs = map length inputs'"
  then show "SanityCheck inputs = SanityCheck inputs'"
    by (rule SanityCheck_sizes_only)
qed

theorem SanityCheck_arity_mismatch_witness:
  "[[[2, 3]], [[2, 3], [1::nat]]] \<noteq> []
   \<and> (\<exists>i < length [[[2, 3]], [[2, 3], [1::nat]]].
         length ([[[2, 3]], [[2, 3], [1::nat]]] ! i) \<noteq> length ([[[2, 3]], [[2, 3], [1::nat]]] ! 0))
   \<and> SanityCheck [[[2, 3]], [[2, 3], [1::nat]]] = Inl ArityMismatch
   \<and> Batchify (\<lambda>n xs. Inr (concat xs)) [[[2, 3]], [[2, 3], [1::nat]]] = Inl ArityMismatch
   \<and> map length [[[2, 3]], [[2, 3], [1::nat]]] = map length [[[7::nat]], [[], [4, 4, 4]]]
   \<and> SanityCheck [[[2, 3]], [[2, 3], [1::nat]]] = SanityCheck [[[7::nat]], [[], [4, 4, 4]]]"
proof -
  let ?xs = "[[[2, 3]], [[2, 3], [1::nat]]]"
  let ?ys = "[[[7::nat]], [[], [4, 4, 4]]]"
  have ne: "?xs \<noteq> []" by simp
  have ex: "\<exists>i < length ?xs. length (?xs ! i) \<noteq> length (?xs ! 0)"
    by (rule exI [of _ 1]) simp
  have ml: "map length ?xs = map length ?ys" by simp
  note t = SanityCheck_arity_mismatch [of ?xs "\<lambda>n xs. Inr (concat xs)" ?ys]
  have a: "SanityCheck ?xs = Inl ArityMismatch
      \<and> Batchify (\<lambda>n xs. Inr (concat xs)) ?xs = Inl ArityMismatch"
    by (rule mp [OF conjunct1 [OF t] conjI [OF ne ex]])
  have b: "SanityCheck ?xs = SanityCheck ?ys"
    by (rule mp [OF conjunct2 [OF t] ml])
  show ?thesis
    by (intro conjI ne ex ml b conjunct1 [OF a] conjunct2 [OF a])
qed

text \<open>
  C2. On the empty sequence of samples the validation fails with \<open>EmptyBatch\<close>, and
  \<open>Batchify\<close> fails with it without producing an output; whenever the validation or
  \<open>Batchify\<close> returns a result, the sequence had at least one sample.
\<close>

theorem SanityCheck_empty_batch:
  "SanityCheck [] = Inl EmptyBatch
   \<and> Batchify stack [] = Inl EmptyBatch
   \<and> (\<forall>n. SanityCheck inputs = Inr n \<longrightarrow> 1 \<le> length inputs)
   \<and> (\<forall>out. Batchify stack inputs = Inr out \<longrightarrow> 1 \<le> length inputs)"
proof (intro conjI allI impI)
  show "SanityCheck [] = Inl EmptyBatch"
    by (simp add: SanityCheck_def)
  show "Batchify stack [] = Inl EmptyBatch"
    by (simp add: Batchify_def SanityCheck_def)
next
  fix n
  assume "SanityCheck inputs = Inr n"
  then have "inputs \<noteq> []" by (rule SanityCheck_Inr_nonempty)
  then show "1 \<le> length inputs" by (simp add: Suc_le_eq)
next
  fix out
  assume "Batchify stack inputs = Inr out"
  then obtain n where "SanityCheck inputs = Inr n"
    by (auto simp add: Batchify_def split: sum.splits)
  then have "inputs \<noteq> []" by (rule SanityCheck_Inr_nonempty)
  then show "1 \<le> length inputs" by (simp add: Suc_le_eq)
qed

theorem SanityCheck_empty_batch_witness:
  "SanityCheck [[[2, 3::nat]]] = Inr 1
   \<and> Batchify (\<lambda>n xs. Inr (concat xs)) [[[2, 3::nat]]] = Inr [[2, 3]]
   \<and> 1 \<le> length [[[2, 3::nat]]]
   \<and> SanityCheck ([] :: nat list list list) = Inl EmptyBatch
   \<and> Batchify (\<lambda>n xs. Inr (concat xs)) ([] :: nat list list list) = Inl EmptyBatch"
proof -
  let ?xs = "[[[2, 3::nat]]]"
  have sc: "SanityCheck ?xs = Inr 1"
    by (simp add: SanityCheck_def SanityCheck_loop.simps)
  then have bf: "Batchify (\<lambda>n xs. Inr (concat xs)) ?xs = Inr [[2, 3]]"
    by (simp add: Batchify_def)
  note t = SanityCheck_empty_batch [of "\<lambda>n xs. Inr (concat xs)" ?xs]
  have ge: "1 \<le> length ?xs"
    by (rule mp [OF spec [OF conjunct1 [OF conjunct2 [OF conjunct2 [OF t]]]] sc])
  show ?thesis
    by (intro conjI sc bf ge conjunct1 [OF t] conjunct1 [OF conjunct2 [OF t]])
qed

text \<open>
  C10. On a batch of exactly one sample the validation succeeds and returns the field
  count of that sample; a sample with no field at all passes, with the result 0.
\<close>

theorem SanityCheck_single_sample:
  "SanityCheck [sample] = Inr (length sample) \<and> SanityCheck [[]] = Inr 0"
  by (simp add: SanityCheck_def SanityCheck_loop.simps)

section \<open>Exhaustion of a streaming iterator\<close>

lemma Next_False_fixpoint:
  assumes "Next it = (Inr False, it')"
  shows "Next it' = (Inr False, it')"
proof -
  from assms have ph: "phase it \<noteq> Uninitialized"
    by (auto simp add: Next_def split: if_splits)
  from assms ph have c: "\<not> cursor it < length (upstream it)"
    by (auto simp add: Next_def split: if_splits item.splits)
  from assms ph c have it': "it' = it\<lparr>phase := Exhausted, current := None\<rparr>"
    by (simp add: Next_def)
  with c show ?thesis
    by (simp add: Next_def)
qed

lemma Next_times_fixpoint:
  assumes "Next it = (Inr False, it)"
  shows "Next_times k it = (replicate k (Inr False), it)"
  using assms by (induction k) simp_all


lemma Next_after_BeforeFirst:
  assumes "Next it = (Inr False, it')" and "upstream it = Good b # rest"
  shows "\<exists>r. BeforeFirst it' = Inr r \<and> fst (Next r) = Inr True \<and> Value (snd (Next r)) = Inr b"
proof -
  from assms(1) have ph: "phase it \<noteq> Uninitialized"
    by (auto simp add: Next_def split: if_splits)
  from assms(1) ph have c: "\<not> cursor it < length (upstream it)"
    by (auto simp add: Next_def split: if_splits item.splits)
  from assms(1) ph c have it': "it' = it\<lparr>phase := Exhausted, current := None\<rparr>"
    by (simp add: Next_def)
  let ?r = "it'\<lparr>cursor := 0, phase := Ready, current := None\<rparr>"
  from it' have "BeforeFirst it' = Inr ?r"
    by (simp add: BeforeFirst_def)
  moreover from it' assms(2) have "Next ?r = (Inr True, ?r\<lparr>cursor := 1, current := Some b\<rparr>)"
    by (simp add: Next_def)
  moreover have "Value (?r\<lparr>cursor := 1, current := Some b\<rparr>) = Inr b"
    by (simp add: Value_def)
  ultimately show ?thesis by simp
qed

text \<open>
  C4. Once \<^verbatim>\<open>Next\<close> has returned false, every later call of \<^verbatim>\<open>Next\<close> returns false as well
  and leaves the iterator as it is: the cursor does not go back by itself. Only
  \<^verbatim>\<open>BeforeFirst\<close> ends this: after it, \<^verbatim>\<open>Next\<close> succeeds again and delivers the first
  batch of the epoch.
\<close>

theorem Next_false_is_sticky:
  assumes "Next it = (Inr False, it')"
  shows "Next_times k it' = (replicate k (Inr False), it')
    \<and> (\<forall>b rest. upstream it = Good b # rest \<longrightarrow>
          (\<exists>r. BeforeFirst it' = Inr r \<and> fst (Next r) = Inr True
               \<and> Value (snd (Next r)) = Inr b))"
proof (intro conjI allI impI)
  from assms have "Next it' = (Inr False, it')"
    by (rule Next_False_fixpoint)
  then show "Next_times k it' = (replicate k (Inr False), it')"
    by (rule Next_times_fixpoint)
next
  fix b rest
  assume "upstream it = Good b # rest"
  with assms show "\<exists>r. BeforeFirst it' = Inr r \<and> fst (Next r) = Inr True
      \<and> Value (snd (Next r)) = Inr b"
    by (rule Next_after_BeforeFirst)
qed

theorem Next_false_is_sticky_witness:
  "Next \<lparr>upstream = [Good (5::nat), Good 6], cursor = 2, phase = Ready, current = Some 6\<rparr>
     = (Inr False, \<lparr>upstream = [Good 5, Good 6], cursor = 2, phase = Exhausted, current = None\<rparr>)
   \<and> Next_times 3 \<lparr>upstream = [Good (5::nat), Good 6], cursor = 2, phase = Exhausted, current = None\<rparr>
     = ([Inr False, Inr False, Inr False],
        \<lparr>upstream = [Good 5, Good 6], cursor = 2, phase = Exhausted, current = None\<rparr>)
   \<and> (\<exists>r. BeforeFirst \<lparr>upstream = [Good (5::nat), Good 6], cursor = 2, phase = Exhausted, current = None\<rparr> = Inr r
          \<and> fst (Next r) = Inr True \<and> Value (snd (Next r)) = Inr 5)"
proof -
  let ?it = "\<lparr>upstream = [Good (5::nat), Good 6], cursor = 2, phase = Ready, current = Some 6\<rparr>"
  let ?it' = "\<lparr>upstream = [Good (5::nat), Good 6], cursor = 2, phase = Exhausted, current = None\<rparr>"
  have h: "Next ?it = (Inr False, ?it')"
    by (simp add: Next_def)
  have u: "upstream ?it = Good 5 # [Good 6]"
    by simp
  note t = Next_false_is_sticky [OF h, of 3]
  have a: "Next_times 3 ?it' = ([Inr False, Inr False, Inr False], ?it')"
    using conjunct1 [OF t] by (simp add: numeral_3_eq_3)
  have b: "\<exists>r. BeforeFirst ?it' = Inr r \<and> fst (Next r) = Inr True \<and> Value (snd (Next r)) = Inr 5"
    by (rule mp [OF spec [OF spec [OF conjunct2 [OF t]]] u])
  show ?thesis
    by (intro conjI h a b)
qed

section \<open>Access to a dataset\<close>





section \<open>The prefetching wrapper\<close>

subsection \<open>Runs\<close>

lemma run_append: "run (xs @ ys) s = run ys (run xs s)"
proof (induction xs arbitrary: s)
  case Nil
  show ?case by simp
next
  case (Cons ev xs)
  obtain log p where s: "s = (log, p)" by (cases s)
  obtain out p' where e: "exec ev p = (out, p')" by (cases "exec ev p")
  from Cons.IH [of "(log @ out, p')"] s e show ?case by simp
qed

subsection \<open>The background loop and the end of the epoch\<close>

lemma background_alive:
  assumes "loop_alive_ok p" and "background p = Some p'"
  shows "loop_alive_ok p'"
  using assms
  by (auto simp add: loop_alive_ok_def background_def
      split: if_splits option.splits prod.splits sum.splits bool.splits)

lemma Prefetch_Next_alive:
  assumes "loop_alive_ok p" and "Prefetch_Next p = Some (r, p')"
  shows "loop_alive_ok p'"
  using assms
  by (auto simp add: loop_alive_ok_def Prefetch_Next_def
      split: if_splits option.splits list.splits slot.splits)

lemma Prefetch_Value_alive:
  assumes "loop_alive_ok p" and "Prefetch_Value p = (r, p')"
  shows "loop_alive_ok p'"
  using assms
  by (auto simp add: loop_alive_ok_def Prefetch_Value_def
      split: if_splits option.splits)

lemma exec_alive:
  assumes "loop_alive_ok p" and "exec ev p = (out, p')"
  shows "loop_alive_ok p'"
proof (cases ev)
  case Background
  with assms show ?thesis
    by (auto split: option.splits dest: background_alive)
next
  case CallNext
  with assms show ?thesis
    by (auto split: option.splits dest: Prefetch_Next_alive)
next
  case CallValue
  with assms show ?thesis
    by (auto split: prod.splits dest: Prefetch_Value_alive)
next
  case Pull
  show ?thesis
  proof (cases "Prefetch_Next p")
    case None
    with Pull assms show ?thesis by simp
  next
    case (Some a)
    obtain r p1 where a: "a = (r, p1)" by (cases a)
    from assms(1) Some a have p1: "loop_alive_ok p1"
      by (auto dest: Prefetch_Next_alive)
    show ?thesis
    proof (cases "r = Inr True")
      case False
      with Pull Some a assms(2) p1 show ?thesis by simp
    next
      case True
      obtain v p2 where v: "Prefetch_Value p1 = (v, p2)" by (cases "Prefetch_Value p1")
      with p1 have "loop_alive_ok p2" by (auto dest: Prefetch_Value_alive)
      with Pull Some a True v assms(2) show ?thesis by simp
    qed
  qed
qed

lemma run_alive:
  assumes "loop_alive_ok (snd s)"
  shows "loop_alive_ok (snd (run evs s))"
  using assms
proof (induction evs arbitrary: s)
  case Nil
  then show ?case by simp
next
  case (Cons ev evs)
  obtain log p where s: "s = (log, p)" by (cases s)
  obtain out p' where e: "exec ev p = (out, p')" by (cases "exec ev p")
  from Cons.prems s e have "loop_alive_ok p'"
    by (auto dest: exec_alive)
  then have "loop_alive_ok (snd (run evs (log @ out, p')))"
    using Cons.IH [of "(log @ out, p')"] by simp
  with s e show ?case by simp
qed

lemma Prefetch_Init_alive: "loop_alive_ok (Prefetch_Init depth it)"
  by (simp add: loop_alive_ok_def Prefetch_Init_def)

subsection \<open>After exhaustion\<close>

lemma exec_after_exhaustion:
  assumes "wphase r = Exhausted" and "\<not> running r"
  shows "snd (exec ev r) = r
    \<and> set (fst (exec ev r)) \<subseteq> {NextResult (Inr False), ValueResult (Inl InvalidState)}"
  using assms
  by (cases ev) (simp_all add: background_def Prefetch_Next_def Prefetch_Value_def)

lemma run_after_exhaustion:
  assumes "wphase r = Exhausted" and "\<not> running r"
  shows "snd (run evs (lg, r)) = r
    \<and> set (fst (run evs (lg, r)))
        \<subseteq> set lg \<union> {NextResult (Inr False), ValueResult (Inl InvalidState)}"
proof (induction evs arbitrary: lg)
  case Nil
  show ?case by auto
next
  case (Cons ev evs)
  obtain out r' where e: "exec ev r = (out, r')" by (cases "exec ev r")
  from exec_after_exhaustion [OF assms, of ev] e
  have r': "r' = r"
    and out: "set out \<subseteq> {NextResult (Inr False), ValueResult (Inl InvalidState)}"
    by simp_all
  from Cons.IH [of "lg @ out"] have
    "snd (run evs (lg @ out, r)) = r"
    and "set (fst (run evs (lg @ out, r)))
        \<subseteq> set (lg @ out) \<union> {NextResult (Inr False), ValueResult (Inl InvalidState)}"
    by simp_all
  with e r' out show ?case by auto
qed

lemma run_Background_stopped:
  assumes "\<not> running q"
  shows "run (replicate k Background) (lg, q) = (lg, q)"
  using assms by (induction k) (simp_all add: background_def)

lemmas prefetch_eval =
  Prefetch_Init_def fresh_def Init_def background_def Next_def Value_def
  Prefetch_Next_def Prefetch_Value_def

text \<open>
  C6. Take any run of the wrapper around any inner iterator, and let the background loop
  be about to call the inner \<^verbatim>\<open>Next\<close>, which raises the error \<open>e\<close>. Then the loop
  captures the error and stops: further background actions change nothing. The next call
  of the consumer, \<open>next\<close> or \<open>value\<close>, raises \<open>e\<close> and leaves the wrapper \<open>Exhausted\<close>. From
  then on, whatever is called and however the calls interleave with the background
  loop, the wrapper stays as it is (nothing is produced, nothing is captured), \<open>next\<close>
  returns false and \<open>value\<close> fails with \<open>InvalidState\<close>, as on any exhausted iterator.
\<close>

theorem Prefetch_error_surfaces_once:
  assumes "run evs ([], Prefetch_Init depth it) = (log, p)"
    and "running p" and "pending p = None"
    and "Next (inner p) = (Inl e, it')"
  shows "\<exists>q r. background p = Some q
    \<and> run (replicate k Background) (log, q) = (log, q)
    \<and> Prefetch_Next q = Some (Inl e, r)
    \<and> Prefetch_Value q = (Inl e, r)
    \<and> wphase r = Exhausted \<and> captured r = None \<and> \<not> running r
    \<and> snd (run evs' (log', r)) = r
    \<and> set (fst (run evs' ([], r))) \<subseteq> {NextResult (Inr False), ValueResult (Inl InvalidState)}"
proof -
  let ?q = "p\<lparr>inner := it', running := False, captured := Some e\<rparr>"
  let ?r = "?q\<lparr>captured := None, wphase := Exhausted, wcurrent := None\<rparr>"
  have "loop_alive_ok (snd (run evs ([], Prefetch_Init depth it)))"
    by (rule run_alive) (simp add: Prefetch_Init_alive)
  with assms(1) have "loop_alive_ok p" by simp
  with assms(2) have ph: "wphase p \<noteq> Exhausted"
    by (simp add: loop_alive_ok_def)
  from assms(2-4) have bg: "background p = Some ?q"
    by (simp add: background_def)
  have stop: "run (replicate k Background) (log, ?q) = (log, ?q)"
    by (rule run_Background_stopped) simp
  from ph have nx: "Prefetch_Next ?q = Some (Inl e, ?r)"
    by (simp add: Prefetch_Next_def)
  from ph have vl: "Prefetch_Value ?q = (Inl e, ?r)"
    by (simp add: Prefetch_Value_def)
  have ex: "wphase ?r = Exhausted" and nr: "\<not> running ?r"
    by simp_all
  have a: "snd (run evs' (log', ?r)) = ?r"
    using run_after_exhaustion [OF ex nr, of evs' log'] by simp
  have b: "set (fst (run evs' ([], ?r)))
      \<subseteq> {NextResult (Inr False), ValueResult (Inl InvalidState)}"
    using run_after_exhaustion [OF ex nr, of evs' "[]"] by simp
  have cp: "captured ?r = None"
    by simp
  from bg stop nx vl ex cp nr a b show ?thesis
    by blast
qed

theorem Prefetch_error_surfaces_once_witness:
  "run [Background, Background] ([], Prefetch_Init 2 failing_upstream) = ([], before_failure)
   \<and> running before_failure
   \<and> pending before_failure = None
   \<and> Next (inner before_failure) = (Inl UpstreamIOError, inner before_failure)
   \<and> (\<exists>q r. background before_failure = Some q
        \<and> run (replicate 3 Background) ([], q) = ([], q)
        \<and> Prefetch_Next q = Some (Inl UpstreamIOError, r)
        \<and> Prefetch_Value q = (Inl UpstreamIOError, r)
        \<and> wphase r = Exhausted \<and> captured r = None \<and> \<not> running r
        \<and> snd (run [CallNext, CallValue, Background, Pull] ([], r)) = r
        \<and> set (fst (run [CallNext, CallValue, Background, Pull] ([], r)))
            \<subseteq> {NextResult (Inr False), ValueResult (Inl InvalidState)})"
proof -
  have a: "run [Background, Background] ([], Prefetch_Init 2 failing_upstream)
      = ([], before_failure)"
    by (simp add: prefetch_eval failing_upstream_def before_failure_def)
  have b: "running before_failure"
    by (simp add: before_failure_def)
  have c: "pending before_failure = None"
    by (simp add: before_failure_def)
  have d: "Next (inner before_failure) = (Inl UpstreamIOError, inner before_failure)"
    by (simp add: before_failure_def Next_def)
  note t = Prefetch_error_surfaces_once
    [OF a b c d, of 3 "[CallNext, CallValue, Background, Pull]" "[]"]
  show ?thesis
    by (intro conjI a b c d t)
qed

subsection \<open>Delivery in order\<close>

lemma values_of_append: "values_of (xs @ ys) = values_of xs @ values_of ys"
  by (induction xs rule: values_of.induct) simp_all

lemma items_prefix:
  "map Item xs @ r = map Item ys @ [EndOfEpoch] \<Longrightarrow> take (length xs) ys = xs"
proof (induction xs arbitrary: ys)
  case Nil
  show ?case by simp
next
  case (Cons x xs)
  show ?case
  proof (cases ys)
    case Nil
    with Cons.prems show ?thesis by simp
  next
    case (Cons y ys')
    with Cons.prems have "x = y" and "map Item xs @ r = map Item ys' @ [EndOfEpoch]"
      by simp_all
    with Cons.IH [of ys'] Cons show ?thesis by simp
  qed
qed

lemma items_complete:
  "map Item xs @ EndOfEpoch # r = map Item ys @ [EndOfEpoch] \<Longrightarrow> xs = ys"
proof (induction xs arbitrary: ys)
  case Nil
  then show ?case by (cases ys) simp_all
next
  case (Cons x xs)
  show ?case
  proof (cases ys)
    case Nil
    with Cons.prems show ?thesis by simp
  next
    case (Cons y ys')
    with Cons.prems have "x = y" and "map Item xs @ EndOfEpoch # r = map Item ys' @ [EndOfEpoch]"
      by simp_all
    with Cons.IH [of ys'] Cons show ?thesis by simp
  qed
qed

lemma items_not_all:
  "map Item xs \<noteq> map Item ys @ [EndOfEpoch]"
proof
  assume "map Item xs = map Item ys @ [EndOfEpoch]"
  then have "EndOfEpoch \<in> set (map Item xs)" by simp
  then show False by auto
qed

lemma background_push:
  assumes "pending p = Some s" and "running p" and "length (queue p) < lookahead p"
  shows "background p
    = Some (p\<lparr>queue := queue p @ [s], pending := None, running := (s \<noteq> EndOfEpoch)\<rparr>)"
  using assms by (simp add: background_def)

lemma background_produce_item:
  assumes "pending p = None" and "running p" and "upstream (inner p) = map Good bs"
    and "phase (inner p) = Ready" and "cursor (inner p) < length bs"
  shows "background p
    = Some (p\<lparr>inner := (inner p)\<lparr>cursor := cursor (inner p) + 1,
                                    current := Some (bs ! cursor (inner p))\<rparr>,
              pending := Some (Item (bs ! cursor (inner p)))\<rparr>)"
proof -
  from assms(3-5) have "Next (inner p)
    = (Inr True, (inner p)\<lparr>cursor := cursor (inner p) + 1,
                             current := Some (bs ! cursor (inner p))\<rparr>)"
    by (simp add: Next_def)
  moreover from assms(4) have "Value ((inner p)\<lparr>cursor := cursor (inner p) + 1,
                             current := Some (bs ! cursor (inner p))\<rparr>)
    = Inr (bs ! cursor (inner p))"
    by (simp add: Value_def)
  ultimately show ?thesis
    using assms(1,2) by (simp add: background_def)
qed

lemma background_produce_end:
  assumes "pending p = None" and "running p" and "upstream (inner p) = map Good bs"
    and "phase (inner p) = Ready" and "\<not> cursor (inner p) < length bs"
  shows "background p
    = Some (p\<lparr>inner := (inner p)\<lparr>phase := Exhausted, current := None\<rparr>,
              pending := Some EndOfEpoch\<rparr>)"
proof -
  from assms(3-5) have "Next (inner p)
    = (Inr False, (inner p)\<lparr>phase := Exhausted, current := None\<rparr>)"
    by (simp add: Next_def)
  then show ?thesis
    using assms(1,2) by (simp add: background_def)
qed

lemma phase_Ready:
  "ph \<noteq> Uninitialized \<Longrightarrow> ph \<noteq> Exhausted \<Longrightarrow> ph = Ready"
  by (cases ph) simp_all

lemma background_in_order:
  assumes inv: "in_order bs (log, p)" and bg: "background p = Some p'"
  shows "in_order bs (log, p') \<and> work_left bs p' < work_left bs p"
proof -
  from bg have run: "running p"
    by (auto simp add: background_def split: if_splits)
  from inv have up: "upstream (inner p) = map Good bs"
    and ini: "phase (inner p) \<noteq> Uninitialized"
    and cap: "captured p = None"
    and loop: "loop_state_ok p"
    and seen: "(NextResult (Inr False) \<in> set log) = (wphase p = Exhausted)"
    and eq: "map Item (values_of log) @ (if wphase p = Exhausted then [EndOfEpoch] else [])
            @ queue p @ pending_list p @ future bs p
          = map Item bs @ [EndOfEpoch]"
    by (simp_all add: in_order_def)
  show ?thesis
  proof (cases "pending p")
    case (Some s)
    with bg run have room: "length (queue p) < lookahead p"
      by (auto simp add: background_def split: if_splits)
    from bg background_push [OF Some run room]
    have p': "p' = p\<lparr>queue := queue p @ [s], pending := None, running := (s \<noteq> EndOfEpoch)\<rparr>"
      by simp
    from loop Some have l': "loop_state_ok p'"
      by (cases s) (simp_all add: loop_state_ok_def p')
    from Some have pl: "pending_list p = [s]" and pl': "pending_list p' = []"
      and fu: "future bs p' = future bs p"
      by (simp_all add: pending_list_def future_def p')
    from eq pl pl' fu have eq': "map Item (values_of log)
            @ (if wphase p' = Exhausted then [EndOfEpoch] else [])
            @ queue p' @ pending_list p' @ future bs p'
          = map Item bs @ [EndOfEpoch]"
      by (simp add: p')
    from up ini cap seen l' eq' have "in_order bs (log, p')"
      by (simp add: in_order_def p')
    moreover from pl pl' fu have "work_left bs p' < work_left bs p"
      by (simp add: work_left_def p')
    ultimately show ?thesis ..
  next
    case None
    with loop run have "phase (inner p) \<noteq> Exhausted"
      by (simp add: loop_state_ok_def)
    with ini have rdy: "phase (inner p) = Ready"
      by (rule phase_Ready)
    from None have pl: "pending_list p = []"
      by (simp add: pending_list_def)
    from rdy have fu: "future bs p = map Item (drop (cursor (inner p)) bs) @ [EndOfEpoch]"
      by (simp add: future_def)
    show ?thesis
    proof (cases "cursor (inner p) < length bs")
      case True
      let ?c = "cursor (inner p)"
      from bg background_produce_item [OF None run up rdy True]
      have p': "p' = p\<lparr>inner := (inner p)\<lparr>cursor := ?c + 1, current := Some (bs ! ?c)\<rparr>,
                        pending := Some (Item (bs ! ?c))\<rparr>"
        by simp
      from run rdy have l': "loop_state_ok p'"
        by (simp add: loop_state_ok_def p')
      have pl': "pending_list p' = [Item (bs ! ?c)]"
        by (simp add: pending_list_def p')
      from rdy have fu': "future bs p' = map Item (drop (Suc ?c) bs) @ [EndOfEpoch]"
        by (simp add: future_def p')
      from True have "drop ?c bs = bs ! ?c # drop (Suc ?c) bs"
        by (simp add: Cons_nth_drop_Suc)
      with fu fu' pl' have "pending_list p' @ future bs p' = future bs p"
        by simp
      with eq pl have eq': "map Item (values_of log)
            @ (if wphase p' = Exhausted then [EndOfEpoch] else [])
            @ queue p' @ pending_list p' @ future bs p'
          = map Item bs @ [EndOfEpoch]"
        by (simp add: p')
      from up ini cap seen l' eq' have "in_order bs (log, p')"
        by (simp add: in_order_def p')
      moreover from True pl pl' fu fu' have "work_left bs p' < work_left bs p"
        by (simp add: work_left_def p')
      ultimately show ?thesis ..
    next
      case False
      from bg background_produce_end [OF None run up rdy False]
      have p': "p' = p\<lparr>inner := (inner p)\<lparr>phase := Exhausted, current := None\<rparr>,
                        pending := Some EndOfEpoch\<rparr>"
        by simp
      from run have l': "loop_state_ok p'"
        by (simp add: loop_state_ok_def p')
      have pl': "pending_list p' = [EndOfEpoch]"
        by (simp add: pending_list_def p')
      have fu': "future bs p' = []"
        by (simp add: future_def p')
      from False fu have "future bs p = [EndOfEpoch]"
        by simp
      with fu' pl' have "pending_list p' @ future bs p' = future bs p"
        by simp
      with eq pl have eq': "map Item (values_of log)
            @ (if wphase p' = Exhausted then [EndOfEpoch] else [])
            @ queue p' @ pending_list p' @ future bs p'
          = map Item bs @ [EndOfEpoch]"
        by (simp add: p')
      from up cap seen l' eq' have "in_order bs (log, p')"
        by (simp add: in_order_def p')
      moreover from False pl pl' fu fu' have "work_left bs p' < work_left bs p"
        by (simp add: work_left_def p')
      ultimately show ?thesis ..
    qed
  qed
qed

lemma Pull_exhausted:
  assumes "wphase p = Exhausted"
  shows "exec Pull p = ([NextResult (Inr False)], p)"
  using assms by (simp add: Prefetch_Next_def)

lemma Pull_blocked:
  assumes "wphase p \<noteq> Exhausted" and "captured p = None" and "queue p = []"
  shows "exec Pull p = ([], p)"
  using assms by (simp add: Prefetch_Next_def)

lemma Pull_item:
  assumes "wphase p \<noteq> Exhausted" and "captured p = None" and "queue p = Item b # q"
  shows "exec Pull p
    = ([NextResult (Inr True), ValueResult (Inr b)], p\<lparr>queue := q, wcurrent := Some b\<rparr>)"
  using assms by (simp add: Prefetch_Next_def Prefetch_Value_def)

lemma Pull_end:
  assumes "wphase p \<noteq> Exhausted" and "captured p = None" and "queue p = EndOfEpoch # q"
  shows "exec Pull p
    = ([NextResult (Inr False)], p\<lparr>queue := q, wphase := Exhausted, wcurrent := None\<rparr>)"
  using assms by (simp add: Prefetch_Next_def)

lemma Pull_in_order:
  assumes inv: "in_order bs (log, p)" and ex: "exec Pull p = (out, p')"
  shows "in_order bs (log @ out, p')
    \<and> (wphase p \<noteq> Exhausted \<and> queue p \<noteq> [] \<longrightarrow> work_left bs p' < work_left bs p)"
proof -
  from inv have up: "upstream (inner p) = map Good bs"
    and ini: "phase (inner p) \<noteq> Uninitialized"
    and cap: "captured p = None"
    and loop: "loop_state_ok p"
    and seen: "(NextResult (Inr False) \<in> set log) = (wphase p = Exhausted)"
    and eq: "map Item (values_of log) @ (if wphase p = Exhausted then [EndOfEpoch] else [])
            @ queue p @ pending_list p @ future bs p
          = map Item bs @ [EndOfEpoch]"
    by (simp_all add: in_order_def)
  show ?thesis
  proof (cases "wphase p = Exhausted")
    case True
    with ex Pull_exhausted [OF True] have o: "out = [NextResult (Inr False)]" and p': "p' = p"
      by simp_all
    from True up ini cap loop eq have "in_order bs (log @ out, p')"
      by (simp add: in_order_def o p' values_of_append)
    with True show ?thesis by simp
  next
    case False
    show ?thesis
    proof (cases "queue p")
      case Nil
      with ex Pull_blocked [OF False cap Nil] have "out = []" and "p' = p"
        by simp_all
      with inv Nil show ?thesis by simp
    next
      case (Cons s q)
      show ?thesis
      proof (cases s)
        case (Item b)
        with Cons have qp: "queue p = Item b # q" by simp
        from ex Pull_item [OF False cap qp]
        have o: "out = [NextResult (Inr True), ValueResult (Inr b)]"
          and p': "p' = p\<lparr>queue := q, wcurrent := Some b\<rparr>"
          by simp_all
        have pl: "pending_list p' = pending_list p" and fu: "future bs p' = future bs p"
          by (simp_all add: pending_list_def future_def p')
        from loop have l': "loop_state_ok p'"
          by (simp add: loop_state_ok_def p' split: option.splits slot.splits)
        from eq False qp pl fu have eq': "map Item (values_of (log @ out))
            @ (if wphase p' = Exhausted then [EndOfEpoch] else [])
            @ queue p' @ pending_list p' @ future bs p'
          = map Item bs @ [EndOfEpoch]"
          by (simp add: o p' values_of_append)
        from seen have seen': "(NextResult (Inr False) \<in> set (log @ out)) = (wphase p' = Exhausted)"
          by (simp add: o p')
        from up ini cap l' seen' eq' have "in_order bs (log @ out, p')"
          by (simp add: in_order_def p')
        moreover from qp pl fu have "work_left bs p' < work_left bs p"
          by (simp add: work_left_def p')
        ultimately show ?thesis by simp
      next
        case EndOfEpoch
        with Cons have qp: "queue p = EndOfEpoch # q" by simp
        from ex Pull_end [OF False cap qp]
        have o: "out = [NextResult (Inr False)]"
          and p': "p' = p\<lparr>queue := q, wphase := Exhausted, wcurrent := None\<rparr>"
          by simp_all
        have pl: "pending_list p' = pending_list p" and fu: "future bs p' = future bs p"
          by (simp_all add: pending_list_def future_def p')
        from loop have l': "loop_state_ok p'"
          by (simp add: loop_state_ok_def p' split: option.splits slot.splits)
        from eq False qp pl fu have eq': "map Item (values_of (log @ out))
            @ (if wphase p' = Exhausted then [EndOfEpoch] else [])
            @ queue p' @ pending_list p' @ future bs p'
          = map Item bs @ [EndOfEpoch]"
          by (simp add: o p' values_of_append)
        have seen': "(NextResult (Inr False) \<in> set (log @ out)) = (wphase p' = Exhausted)"
          by (simp add: o p')
        from up ini cap l' seen' eq' have "in_order bs (log @ out, p')"
          by (simp add: in_order_def p')
        moreover from False qp pl fu have "work_left bs p' < work_left bs p"
          by (simp add: work_left_def p')
        ultimately show ?thesis by simp
      qed
    qed
  qed
qed

lemma exec_in_order:
  assumes "in_order bs (log, p)" and "ev \<in> {Background, Pull}" and "exec ev p = (out, p')"
  shows "in_order bs (log @ out, p')"
proof (cases "ev = Pull")
  case True
  with assms Pull_in_order [of bs log p out p'] show ?thesis by simp
next
  case False
  with assms(2) have ev: "ev = Background" by simp
  show ?thesis
  proof (cases "background p")
    case None
    with ev assms(1,3) show ?thesis by auto
  next
    case (Some q)
    with ev assms(3) have "out = []" and "p' = q" by auto
    with background_in_order [OF assms(1) Some] show ?thesis by simp
  qed
qed

lemma run_in_order:
  assumes "in_order bs s" and "set evs \<subseteq> {Background, Pull}"
  shows "in_order bs (run evs s)"
  using assms
proof (induction evs arbitrary: s)
  case Nil
  then show ?case by simp
next
  case (Cons ev evs)
  obtain log p where s: "s = (log, p)" by (cases s)
  obtain out p' where e: "exec ev p = (out, p')" by (cases "exec ev p")
  from Cons.prems have ev: "ev \<in> {Background, Pull}" and evs: "set evs \<subseteq> {Background, Pull}"
    by simp_all
  from Cons.prems(1) s have "in_order bs (log, p)" by simp
  from exec_in_order [OF this ev e] have "in_order bs (log @ out, p')" .
  from Cons.IH [OF this evs] s e show ?case by simp
qed

lemma exec_lookahead: "lookahead (snd (exec ev p)) = lookahead p"
  by (cases ev)
    (auto simp add: background_def Prefetch_Next_def Prefetch_Value_def
      split: option.splits if_splits prod.splits sum.splits bool.splits list.splits slot.splits)

lemma progress:
  assumes inv: "in_order bs (log, p)" and ph: "wphase p \<noteq> Exhausted"
    and room: "0 < lookahead p"
  shows "\<exists>ev \<in> {Background, Pull}. work_left bs (snd (exec ev p)) < work_left bs p"
proof (cases "queue p = []")
  case False
  obtain out p' where e: "exec Pull p = (out, p')" by (cases "exec Pull p")
  from Pull_in_order [OF inv e] ph False have "work_left bs p' < work_left bs p"
    by simp
  with e show ?thesis by simp
next
  case True
  from inv have up: "upstream (inner p) = map Good bs"
    and ini: "phase (inner p) \<noteq> Uninitialized"
    and loop: "loop_state_ok p"
    and eq: "map Item (values_of log) @ (if wphase p = Exhausted then [EndOfEpoch] else [])
            @ queue p @ pending_list p @ future bs p
          = map Item bs @ [EndOfEpoch]"
    by (simp_all add: in_order_def)
  have "\<exists>q. background p = Some q"
  proof (cases "pending p")
    case (Some s)
    with loop have "running p"
      by (cases s) (simp_all add: loop_state_ok_def)
    from background_push [OF Some this] True room show ?thesis
      by simp
  next
    case None
    then have pl: "pending_list p = []"
      by (simp add: pending_list_def)
    have "future bs p \<noteq> []"
    proof
      assume "future bs p = []"
      with eq ph True pl have "map Item (values_of log) = map Item bs @ [EndOfEpoch]"
        by simp
      with items_not_all show False by blast
    qed
    then have ne: "phase (inner p) \<noteq> Exhausted"
      by (auto simp add: future_def split: if_splits)
    with ini have rdy: "phase (inner p) = Ready"
      by (rule phase_Ready)
    from loop None ne have run: "running p"
      by (simp add: loop_state_ok_def)
    show ?thesis
    proof (cases "cursor (inner p) < length bs")
      case True
      from background_produce_item [OF None run up rdy True] show ?thesis
        by blast
    next
      case False
      from background_produce_end [OF None run up rdy False] show ?thesis
        by blast
    qed
  qed
  then obtain q where q: "background p = Some q" ..
  from background_in_order [OF inv q] have "work_left bs q < work_left bs p"
    by simp
  with q have "work_left bs (snd (exec Background p)) < work_left bs p"
    by simp
  then show ?thesis by blast
qed

lemma completion:
  assumes "in_order bs s" and "0 < lookahead (snd s)"
  shows "\<exists>evs. set evs \<subseteq> {Background, Pull} \<and> wphase (snd (run evs s)) = Exhausted"
  using assms
proof (induction "work_left bs (snd s)" arbitrary: s rule: less_induct)
  case less
  obtain log p where s: "s = (log, p)" by (cases s)
  show ?case
  proof (cases "wphase p = Exhausted")
    case True
    with s have "set [] \<subseteq> {Background, Pull} \<and> wphase (snd (run [] s)) = Exhausted"
      by simp
    then show ?thesis by blast
  next
    case False
    from less.prems s have inv: "in_order bs (log, p)" and room: "0 < lookahead p"
      by simp_all
    from progress [OF inv False room] obtain ev
      where ev: "ev \<in> {Background, Pull}"
        and dec: "work_left bs (snd (exec ev p)) < work_left bs p"
      by blast
    obtain out p' where e: "exec ev p = (out, p')" by (cases "exec ev p")
    from exec_in_order [OF inv ev e] have inv': "in_order bs (log @ out, p')" .
    from exec_lookahead [of ev p] e room have room': "0 < lookahead (snd (log @ out, p'))"
      by simp
    from dec e s have "work_left bs (snd (log @ out, p')) < work_left bs (snd s)"
      by simp
    from less.hyps [OF this inv' room'] obtain evs
      where evs: "set evs \<subseteq> {Background, Pull}"
        and fin: "wphase (snd (run evs (log @ out, p'))) = Exhausted"
      by blast
    from ev evs have "set (ev # evs) \<subseteq> {Background, Pull}" by simp
    moreover from fin s e have "wphase (snd (run (ev # evs) s)) = Exhausted" by simp
    ultimately show ?thesis by blast
  qed
qed

lemma Prefetch_Init_in_order: "in_order bs ([], Prefetch_Init depth (fresh bs))"
  by (simp add: in_order_def Prefetch_Init_def fresh_def Init_def loop_state_ok_def
      pending_list_def future_def)

lemma in_order_prefix:
  assumes "in_order bs (log, p)"
  shows "take (length (values_of log)) bs = values_of log"
proof -
  from assms have "map Item (values_of log) @ (if wphase p = Exhausted then [EndOfEpoch] else [])
            @ queue p @ pending_list p @ future bs p
          = map Item bs @ [EndOfEpoch]"
    by (simp add: in_order_def)
  then show ?thesis by (rule items_prefix)
qed

lemma in_order_complete:
  assumes "in_order bs (log, p)" and "NextResult (Inr False) \<in> set log"
  shows "values_of log = bs"
proof -
  from assms have ex: "wphase p = Exhausted"
    by (simp add: in_order_def)
  from assms(1) have "map Item (values_of log) @ (if wphase p = Exhausted then [EndOfEpoch] else [])
            @ queue p @ pending_list p @ future bs p
          = map Item bs @ [EndOfEpoch]"
    by (simp add: in_order_def)
  with ex have "map Item (values_of log) @ EndOfEpoch # (queue p @ pending_list p @ future bs p)
          = map Item bs @ [EndOfEpoch]"
    by simp
  then show ?thesis by (rule items_complete)
qed

subsection \<open>The inner iterator by itself\<close>

lemma direct_values:
  assumes "upstream it = map Good bs" and "phase it \<noteq> Uninitialized"
    and "phase it = Exhausted \<longrightarrow> length bs \<le> cursor it"
  shows "values_of (direct k it) = take k (drop (cursor it) bs)"
  using assms
proof (induction k arbitrary: it)
  case 0
  show ?case by simp
next
  case (Suc k)
  show ?case
  proof (cases "cursor it < length bs")
    case True
    with Suc.prems have rdy: "phase it = Ready"
      by (cases "phase it") simp_all
    let ?it' = "it\<lparr>cursor := cursor it + 1, current := Some (bs ! cursor it)\<rparr>"
    from True Suc.prems(1) Suc.prems(2) have nx: "Next it = (Inr True, ?it')"
      by (simp add: Next_def)
    from rdy have vl: "Value ?it' = Inr (bs ! cursor it)"
      by (simp add: Value_def)
    from Suc.prems rdy have "values_of (direct k ?it') = take k (drop (cursor ?it') bs)"
      by (intro Suc.IH) simp_all
    then have "values_of (direct k ?it') = take k (drop (Suc (cursor it)) bs)"
      by simp
    moreover from True have "drop (cursor it) bs = bs ! cursor it # drop (Suc (cursor it)) bs"
      by (simp add: Cons_nth_drop_Suc)
    ultimately show ?thesis
      using nx vl by simp
  next
    case False
    let ?it' = "it\<lparr>phase := Exhausted, current := None\<rparr>"
    from False Suc.prems(1) Suc.prems(2) have nx: "Next it = (Inr False, ?it')"
      by (simp add: Next_def)
    from Suc.prems False have "values_of (direct k ?it') = take k (drop (cursor ?it') bs)"
      by (intro Suc.IH) simp_all
    with False nx show ?thesis by simp
  qed
qed

lemma direct_ends:
  assumes "upstream it = map Good bs" and "phase it \<noteq> Uninitialized"
    and "length bs < cursor it + k" and "0 < k"
  shows "NextResult (Inr False) \<in> set (direct k it)"
  using assms
proof (induction k arbitrary: it)
  case 0
  then show ?case by simp
next
  case (Suc k)
  show ?case
  proof (cases "cursor it < length bs")
    case True
    let ?it' = "it\<lparr>cursor := cursor it + 1, current := Some (bs ! cursor it)\<rparr>"
    from True Suc.prems(1) Suc.prems(2) have nx: "Next it = (Inr True, ?it')"
      by (simp add: Next_def)
    from Suc.prems True have "NextResult (Inr False) \<in> set (direct k ?it')"
      by (intro Suc.IH) simp_all
    with nx show ?thesis by simp
  next
    case False
    with Suc.prems(1) Suc.prems(2)
    have "Next it = (Inr False, it\<lparr>phase := Exhausted, current := None\<rparr>)"
      by (simp add: Next_def)
    then show ?thesis by simp
  qed
qed

lemma direct_fresh:
  "values_of (direct (Suc (length bs)) (Init (fresh bs))) = bs
   \<and> NextResult (Inr False) \<in> set (direct (Suc (length bs)) (Init (fresh bs)))"
proof
  have "values_of (direct (Suc (length bs)) (Init (fresh bs)))
      = take (Suc (length bs)) (drop (cursor (Init (fresh bs))) bs)"
    by (rule direct_values) (simp_all add: Init_def fresh_def)
  then show "values_of (direct (Suc (length bs)) (Init (fresh bs))) = bs"
    by (simp add: Init_def fresh_def)
  show "NextResult (Inr False) \<in> set (direct (Suc (length bs)) (Init (fresh bs)))"
    by (rule direct_ends [where bs = bs]) (simp_all add: Init_def fresh_def)
qed

text \<open>
  C5. The inner iterator by itself yields the batches \<open>bs\<close>, in order, and then returns
  false. Around it, for every lookahead depth and every interleaving of background
  actions with turns of the consumer's loop, the batches that the wrapper's \<open>value\<close> has
  returned are an initial segment of \<open>bs\<close>, in order, none skipped and none twice; once
  the wrapper's \<open>next\<close> has returned false they are exactly \<open>bs\<close>. With a depth of at
  least one, every run can be continued until \<open>next\<close> returns false.
\<close>

theorem Prefetch_delivers_in_order:
  assumes "set evs \<subseteq> {Background, Pull}"
  shows "values_of (direct (Suc (length bs)) (Init (fresh bs))) = bs
    \<and> take (length (values_of (fst (run evs ([], Prefetch_Init depth (fresh bs)))))) bs
      = values_of (fst (run evs ([], Prefetch_Init depth (fresh bs))))
    \<and> (NextResult (Inr False) \<in> set (fst (run evs ([], Prefetch_Init depth (fresh bs))))
        \<longrightarrow> values_of (fst (run evs ([], Prefetch_Init depth (fresh bs)))) = bs)
    \<and> (0 < depth \<longrightarrow>
        (\<exists>evs'. set evs' \<subseteq> {Background, Pull}
          \<and> NextResult (Inr False)
              \<in> set (fst (run (evs @ evs') ([], Prefetch_Init depth (fresh bs))))))"
proof -
  let ?s0 = "([], Prefetch_Init depth (fresh bs)) :: 'a answer list \<times> 'a PrefetchingIterator"
  obtain log p where s: "run evs ?s0 = (log, p)" by (cases "run evs ?s0")
  have "in_order bs (run evs ?s0)"
    using Prefetch_Init_in_order assms by (rule run_in_order)
  with s have inv: "in_order bs (log, p)" by simp
  have a: "take (length (values_of log)) bs = values_of log"
    using inv by (rule in_order_prefix)
  have b: "NextResult (Inr False) \<in> set log \<longrightarrow> values_of log = bs"
    using inv by (auto dest: in_order_complete)
  have c: "0 < depth \<longrightarrow>
        (\<exists>evs'. set evs' \<subseteq> {Background, Pull}
          \<and> NextResult (Inr False) \<in> set (fst (run (evs @ evs') ?s0)))"
  proof
    assume d: "0 < depth"
    have "lookahead (snd ?s0) = depth"
      by (simp add: Prefetch_Init_def)
    have "lookahead (snd (run xs t)) = lookahead (snd t)" for xs and t :: "'a answer list \<times> 'a PrefetchingIterator"
    proof (induction xs arbitrary: t)
      case Nil
      show ?case by simp
    next
      case (Cons x xs)
      obtain lg q where t: "t = (lg, q)" by (cases t)
      obtain out q' where e: "exec x q = (out, q')" by (cases "exec x q")
      from exec_lookahead [of x q] e have "lookahead q' = lookahead q" by simp
      with Cons.IH [of "(lg @ out, q')"] t e show ?case by simp
    qed
    from this [of evs ?s0] s d have room: "0 < lookahead (snd (log, p))"
      by (simp add: Prefetch_Init_def)
    from completion [OF inv room] obtain evs'
      where evs': "set evs' \<subseteq> {Background, Pull}"
        and fin: "wphase (snd (run evs' (log, p))) = Exhausted"
      by blast
    obtain log' p' where s': "run evs' (log, p) = (log', p')" by (cases "run evs' (log, p)")
    from run_in_order [OF inv evs'] s' have "in_order bs (log', p')" by simp
    with fin s' have "NextResult (Inr False) \<in> set log'"
      by (simp add: in_order_def)
    with s s' have "NextResult (Inr False) \<in> set (fst (run (evs @ evs') ?s0))"
      by (simp add: run_append)
    with evs' show "\<exists>evs'. set evs' \<subseteq> {Background, Pull}
          \<and> NextResult (Inr False) \<in> set (fst (run (evs @ evs') ?s0))"
      by blast
  qed
  have d: "values_of (direct (Suc (length bs)) (Init (fresh bs))) = bs"
    using direct_fresh [of bs] by simp
  from a b c d s show ?thesis by simp
qed

theorem Prefetch_delivers_in_order_witness:
  "set [Background, Background, Pull, Background, Background, Pull,
        Background, Background, Pull, Background, Background, Pull] \<subseteq> {Background, Pull}
   \<and> (0::nat) < 1
   \<and> NextResult (Inr False)
       \<in> set (fst (run [Background, Background, Pull, Background, Background, Pull,
                        Background, Background, Pull, Background, Background, Pull]
                       ([], Prefetch_Init 1 (fresh [10, 20, 30::nat]))))
   \<and> values_of (fst (run [Background, Background, Pull, Background, Background, Pull,
                          Background, Background, Pull, Background, Background, Pull]
                         ([], Prefetch_Init 1 (fresh [10, 20, 30::nat]))))
      = [10, 20, 30]
   \<and> values_of (fst (run [Background, Background, Pull, Background, Background, Pull,
                          Background, Background, Pull, Background, Background, Pull]
                         ([], Prefetch_Init 4 (fresh [10, 20, 30::nat]))))
      = [10, 20, 30]
   \<and> values_of (fst (run [Background, Background, Pull, Background, Background, Pull,
                          Background, Background, Pull, Background, Background, Pull]
                         ([], Prefetch_Init 100 (fresh [10, 20, 30::nat]))))
      = [10, 20, 30]"
proof -
  let ?evs = "[Background, Background, Pull, Background, Background, Pull,
               Background, Background, Pull, Background, Background, Pull]"
  have sub: "set ?evs \<subseteq> {Background, Pull}"
    by simp
  have pos: "(0::nat) < 1"
    by simp
  have fin1: "NextResult (Inr False)
      \<in> set (fst (run ?evs ([], Prefetch_Init 1 (fresh [10, 20, 30::nat]))))"
    by (simp add: prefetch_eval)
  have fin4: "NextResult (Inr False)
      \<in> set (fst (run ?evs ([], Prefetch_Init 4 (fresh [10, 20, 30::nat]))))"
    by (simp add: prefetch_eval)
  have fin100: "NextResult (Inr False)
      \<in> set (fst (run ?evs ([], Prefetch_Init 100 (fresh [10, 20, 30::nat]))))"
    by (simp add: prefetch_eval)
  note t1 = Prefetch_delivers_in_order [OF sub, where depth = 1 and bs = "[10, 20, 30::nat]"]
  note t4 = Prefetch_delivers_in_order [OF sub, where depth = 4 and bs = "[10, 20, 30::nat]"]
  note t100 = Prefetch_delivers_in_order [OF sub, where depth = 100 and bs = "[10, 20, 30::nat]"]
  have vs1: "values_of (fst (run ?evs ([], Prefetch_Init 1 (fresh [10, 20, 30::nat]))))
      = [10, 20, 30]"
    by (rule mp [OF conjunct1 [OF conjunct2 [OF conjunct2 [OF t1]]] fin1])
  have vs4: "values_of (fst (run ?evs ([], Prefetch_Init 4 (fresh [10, 20, 30::nat]))))
      = [10, 20, 30]"
    by (rule mp [OF conjunct1 [OF conjunct2 [OF conjunct2 [OF t4]]] fin4])
  have vs100: "values_of (fst (run ?evs ([], Prefetch_Init 100 (fresh [10, 20, 30::nat]))))
      = [10, 20, 30]"
    by (rule mp [OF conjunct1 [OF conjunct2 [OF conjunct2 [OF t100]]] fin100])
  show ?thesis
    by (intro conjI sub pos fin1 vs1 vs4 vs100)
qed

end
